theory Spec2Isabelle
  imports Main "HOL-Library.Word"
begin

section \<open>The single-producer/single-consumer ring buffer (lock_free_queue.hpp)\<close>

text \<open>
  \<open>SpscQueue<_T, _size>\<close> has three data members: the slot array \<open>_T elements[_size]\<close> and
  the two indices \<open>read_index\<close> and \<open>write_index\<close>, both initialised to 0. The template
  parameter \<open>_size\<close> is the length of the slot array, so \<open>capacity()\<close>, which returns
  \<open>_size\<close>, is the length of \<open>elements\<close>. The indices are \<open>size_t\<close>; they are modelled as
  \<open>nat\<close>: the only arithmetic on them is \<open>+ 1\<close> on a value below \<open>_size\<close>, which cannot
  wrap.

  The operations are modelled as executed one after the other (every atomic \<open>load\<close> reads the
  value last stored), with the object passed in and returned.
\<close>

record 'a SpscQueue =
  elements :: "'a list"
  read_index :: nat
  write_index :: nat

text \<open>A freshly constructed queue: the slots hold whatever default initialisation of \<open>_T\<close>
  leaves in them (\<open>slots\<close>), both indices are 0.\<close>

definition SpscQueue_new :: "'a list \<Rightarrow> 'a SpscQueue" where
  "SpscQueue_new slots = \<lparr>elements = slots, read_index = 0, write_index = 0\<rparr>"

definition capacity :: "'a SpscQueue \<Rightarrow> nat" where
  "capacity q = length (elements q)"

definition is_empty :: "'a SpscQueue \<Rightarrow> bool" where
  "is_empty q = (read_index q = write_index q)"

definition front :: "'a SpscQueue \<Rightarrow> 'a" where
  "front q = elements q ! read_index q"

text \<open>\<open>_push\<close>, which both public \<open>push\<close> overloads forward to. The result is the returned
  flag and the queue after the call.\<close>

definition push :: "'a SpscQueue \<Rightarrow> 'a \<Rightarrow> bool \<times> 'a SpscQueue" where
  "push q element =
     (let curr_write_index = write_index q;
          next_write_index = curr_write_index + 1;
          next_write_index = (if next_write_index = capacity q then 0 else next_write_index)
      in if read_index q = next_write_index then (False, q)
         else (True, q\<lparr>elements := (elements q)[curr_write_index := element],
                        write_index := next_write_index\<rparr>))"

text \<open>\<open>pop\<close>. The pointer argument \<open>element\<close> is \<open>None\<close> for \<open>nullptr\<close> and \<open>Some x\<close> for
  a pointer to storage that currently holds \<open>x\<close>; the third component of the result is that
  storage after the call.\<close>

definition pop :: "'a SpscQueue \<Rightarrow> 'a option \<Rightarrow> bool \<times> 'a SpscQueue \<times> 'a option" where
  "pop q element =
     (let curr_read_index = read_index q;
          curr_write_index = write_index q
      in if curr_read_index = curr_write_index then (False, q, element)
         else
           let element' = (case element of None \<Rightarrow> None
                           | Some _ \<Rightarrow> Some (elements q ! curr_read_index));
               curr_read_index = curr_read_index + 1;
               curr_read_index = (if curr_read_index = capacity q then 0 else curr_read_index)
           in (True, q\<lparr>read_index := curr_read_index\<rparr>, element'))"

text \<open>The states a queue object can be in: the template requires \<open>_size > 2\<close>, and both indices
  stay below \<open>_size\<close>.\<close>

definition queue_inv :: "'a SpscQueue \<Rightarrow> bool" where
  "queue_inv q \<longleftrightarrow>
     2 < capacity q \<and> read_index q < capacity q \<and> write_index q < capacity q"

subsection \<open>The bounded FIFO list queue of the specification\<close>

text \<open>The specification's view of the queue: a list of at most \<open>cap\<close> values, appended to at
  the back by a successful push and taken from at the front by a successful pop.\<close>

definition fifo_push :: "nat \<Rightarrow> 'a list \<Rightarrow> 'a \<Rightarrow> bool \<times> 'a list" where
  "fifo_push cap xs v = (if length xs < cap then (True, xs @ [v]) else (False, xs))"

definition fifo_pop :: "'a list \<Rightarrow> 'a option \<Rightarrow> bool \<times> 'a list \<times> 'a option" where
  "fifo_pop xs out =
     (case xs of [] \<Rightarrow> (False, [], out)
      | x # xs' \<Rightarrow> (True, xs', (case out of None \<Rightarrow> None | Some _ \<Rightarrow> Some x)))"

text \<open>Number of stored values and the stored values, oldest first, read off the ring.\<close>

definition count :: "'a SpscQueue \<Rightarrow> nat" where
  "count q = (write_index q + capacity q - read_index q) mod capacity q"

definition contents :: "'a SpscQueue \<Rightarrow> 'a list" where
  "contents q = map (\<lambda>i. elements q ! ((read_index q + i) mod capacity q)) [0..<count q]"

subsection \<open>Sequences of calls\<close>

text \<open>A call is a push of a value or a pop with the pointer argument as described at \<open>pop\<close>;
  its outcome is the returned flag and, for a pop, the pointed-to storage after the call.\<close>

datatype 'a call = Push 'a | Pop "'a option"

datatype 'a outcome = PushResult bool | PopResult bool "'a option"

fun step :: "'a SpscQueue \<Rightarrow> 'a call \<Rightarrow> 'a outcome \<times> 'a SpscQueue" where
  "step q (Push v) = (case push q v of (ok, q') \<Rightarrow> (PushResult ok, q'))"
| "step q (Pop out) = (case pop q out of (ok, q', out') \<Rightarrow> (PopResult ok out', q'))"

fun run :: "'a SpscQueue \<Rightarrow> 'a call list \<Rightarrow> 'a outcome list \<times> 'a SpscQueue" where
  "run q [] = ([], q)"
| "run q (c # cs) =
     (case step q c of (r, q') \<Rightarrow> (case run q' cs of (rs, q'') \<Rightarrow> (r # rs, q'')))"

fun fifo_step :: "nat \<Rightarrow> 'a list \<Rightarrow> 'a call \<Rightarrow> 'a outcome \<times> 'a list" where
  "fifo_step cap xs (Push v) = (case fifo_push cap xs v of (ok, xs') \<Rightarrow> (PushResult ok, xs'))"
| "fifo_step cap xs (Pop out) =
     (case fifo_pop xs out of (ok, xs', out') \<Rightarrow> (PopResult ok out', xs'))"

fun fifo_run :: "nat \<Rightarrow> 'a list \<Rightarrow> 'a call list \<Rightarrow> 'a outcome list \<times> 'a list" where
  "fifo_run cap xs [] = ([], xs)"
| "fifo_run cap xs (c # cs) =
     (case fifo_step cap xs c of (r, xs') \<Rightarrow>
        (case fifo_run cap xs' cs of (rs, xs'') \<Rightarrow> (r # rs, xs'')))"

text \<open>The values accepted by the successful pushes of a run, in call order, and what the
  successful pops delivered, in call order (\<open>None\<close> for a pop called with \<open>nullptr\<close>).\<close>

fun accepted :: "'a call list \<Rightarrow> 'a outcome list \<Rightarrow> 'a list" where
  "accepted (Push v # cs) (PushResult True # rs) = v # accepted cs rs"
| "accepted (c # cs) (r # rs) = accepted cs rs"
| "accepted _ _ = []"

fun delivered :: "'a outcome list \<Rightarrow> 'a option list" where
  "delivered [] = []"
| "delivered (PopResult True out # rs) = out # delivered rs"
| "delivered (r # rs) = delivered rs"

text \<open>A delivered value agrees with an accepted one if the pop was given no storage or
  the storage now holds that value.\<close>

definition agrees :: "'a option \<Rightarrow> 'a \<Rightarrow> bool" where
  "agrees out v \<longleftrightarrow> out = None \<or> out = Some v"

text \<open>Consecutive pushes and their returned flags.\<close>

fun push_all :: "'a SpscQueue \<Rightarrow> 'a list \<Rightarrow> bool list \<times> 'a SpscQueue" where
  "push_all q [] = ([], q)"
| "push_all q (v # vs) =
     (case push q v of (ok, q') \<Rightarrow> (case push_all q' vs of (oks, q'') \<Rightarrow> (ok # oks, q'')))"

section \<open>The message envelope (message.hpp, message.cpp)\<close>

datatype MessageType =
    UNKNOWN | RESUME | PAUSE | STOP | VOLUME | RESIZE
  | EFFECT_ADDED | EFFECT_REMOVED | EFFECT_ENABLED | EFFECT_DISABLED | PLAY_AT

record MessageMetadata =
  m_type :: MessageType

definition MessageMetadata_default :: MessageMetadata where
  "MessageMetadata_default = \<lparr>m_type = UNKNOWN\<rparr>"

definition MessageMetadata_of :: "MessageType \<Rightarrow> MessageMetadata" where
  "MessageMetadata_of type = \<lparr>m_type = type\<rparr>"

definition get_type :: "MessageMetadata \<Rightarrow> MessageType" where
  "get_type md = m_type md"

definition set_type :: "MessageMetadata \<Rightarrow> MessageType \<Rightarrow> MessageMetadata" where
  "set_type md type = md\<lparr>m_type := type\<rparr>"

type_synonym byte = "8 word"

definition MAX_MESSAGE_SIZE :: nat where
  "MAX_MESSAGE_SIZE = 512"

text \<open>\<open>Message\<close>: the tag, the buffer \<open>char payload[MAX_MESSAGE_SIZE]\<close> as a list of bytes, and
  the occupied size (\<open>size_t\<close>, only ever assigned a value that was compared against 512).\<close>

record Message =
  metadata :: MessageMetadata
  payload :: "byte list"
  payload_size :: nat

text \<open>The default constructor: \<open>metadata()\<close>, \<open>payload{ 0 }\<close>, \<open>payload_size(0)\<close>.\<close>

definition Message_default :: Message where
  "Message_default =
     \<lparr>metadata = MessageMetadata_default, payload = replicate MAX_MESSAGE_SIZE 0,
      payload_size = 0\<rparr>"

text \<open>\<open>memcpy(dst, src, n)\<close>: the first \<open>n\<close> bytes of \<open>dst\<close> become the first \<open>n\<close> bytes of
  \<open>src\<close>. Both must be at least \<open>n\<close> bytes long.\<close>

definition memcpy :: "byte list \<Rightarrow> byte list \<Rightarrow> nat \<Rightarrow> byte list" where
  "memcpy dst src n = take n src @ drop n dst"

text \<open>The private overload \<open>set_payload(const void* data, size_t size)\<close> of message.cpp. The
  pointer is \<open>None\<close> for \<open>nullptr\<close> and \<open>Some bs\<close> for a pointer to the bytes \<open>bs\<close>; \<open>sz\<close> is
  the parameter \<open>size\<close>.\<close>

definition set_payload_bytes :: "Message \<Rightarrow> byte list option \<Rightarrow> nat \<Rightarrow> bool \<times> Message" where
  "set_payload_bytes m data sz =
     (case data of
        None \<Rightarrow> (False, m)
      | Some src \<Rightarrow>
          if sz > MAX_MESSAGE_SIZE then (False, m)
          else (True, m\<lparr>payload := memcpy (payload m) src sz, payload_size := sz\<rparr>))"

text \<open>
  The argument of the template overload \<open>set_payload(_T&& data)\<close> and of the constructor
  \<open>Message(const MessageMetadata&, _T&& data)\<close>. A value is its object representation (its
  \<open>sizeof\<close> is the number of bytes); a value of pointer type also says whether it compares
  equal to \<open>nullptr\<close>. A value of a class type that overloads unary \<open>operator&\<close> carries
  what that operator returns, converted to \<open>const void*\<close>: \<open>None\<close> for a null pointer, \<open>Some bs\<close>
  for a pointer to the bytes \<open>bs\<close>. The argument expression is an lvalue or an rvalue.

  \<open>_T&&\<close> is a forwarding reference: for an rvalue of type \<open>U\<close> the parameter \<open>_T\<close> is deduced as
  \<open>U\<close>, for an lvalue as \<open>U&\<close>. \<open>std::is_pointer_v<_T>\<close> holds for a pointer type and for no
  reference type, and \<open>sizeof(U&)\<close> is \<open>sizeof(U)\<close>.
\<close>

datatype data =
    Object "byte list"
  | Pointer bool "byte list"
  | Overloaded "byte list" "byte list option"

datatype value_category = Lvalue | Rvalue

fun object_repr :: "data \<Rightarrow> byte list" where
  "object_repr (Object bs) = bs"
| "object_repr (Pointer null bs) = bs"
| "object_repr (Overloaded bs a) = bs"

definition sizeof :: "data \<Rightarrow> nat" where
  "sizeof d = length (object_repr d)"

fun is_nullptr :: "data \<Rightarrow> bool" where
  "is_nullptr (Object bs) = False"
| "is_nullptr (Pointer null bs) = null"
| "is_nullptr (Overloaded bs a) = False"

text \<open>The expression \<open>&data\<close>: the address of the argument object for the built-in operator, the
  result of the class's own \<open>operator&\<close> otherwise.\<close>

fun address_of :: "data \<Rightarrow> byte list option" where
  "address_of (Object bs) = Some bs"
| "address_of (Pointer null bs) = Some bs"
| "address_of (Overloaded bs a) = a"

fun is_pointer_v :: "value_category \<Rightarrow> data \<Rightarrow> bool" where
  "is_pointer_v Rvalue (Pointer null bs) = True"
| "is_pointer_v _ _ = False"

text \<open>The template overload \<open>set_payload(_T&& data)\<close> of message.hpp:
  \<open>return this->set_payload(&data, sizeof(_T))\<close> after the null check that is compiled only
  under \<open>std::is_pointer_v<_T>\<close>.\<close>

definition set_payload :: "Message \<Rightarrow> value_category \<Rightarrow> data \<Rightarrow> bool \<times> Message" where
  "set_payload m cat d =
     (if is_pointer_v cat d \<and> is_nullptr d then (False, m)
      else set_payload_bytes m (address_of d) (sizeof d))"

text \<open>The constructor \<open>Message(const MessageMetadata& metadata, _T&& data)\<close>: the members are
  initialised with \<open>metadata(metadata), payload(), payload_size()\<close>, then
  \<open>this->set_payload(data)\<close> is called. In that call \<open>data\<close> is the name of the parameter, an
  lvalue whatever the constructor's own argument was. The \<open>throw\<close> is compiled under
  \<open>if constexpr (std::is_pointer_v<_T>)\<close> with the constructor's \<open>_T\<close>.\<close>

datatype error = Runtime_error string

definition Message_ctor :: "MessageMetadata \<Rightarrow> value_category \<Rightarrow> data \<Rightarrow> error + Message" where
  "Message_ctor md cat d =
     (let m0 = \<lparr>metadata = md, payload = replicate MAX_MESSAGE_SIZE 0, payload_size = 0\<rparr>;
          (set_payload_result, m1) = set_payload m0 Lvalue d
      in if is_pointer_v cat d \<and> \<not> set_payload_result
         then Inl (Runtime_error ''Null pointer passed in as data'')
         else Inr m1)"

definition get_metadata :: "Message \<Rightarrow> MessageMetadata" where
  "get_metadata m = metadata m"

text \<open>\<open>get_payload<_T>()\<close> reads the first \<open>sizeof(_T)\<close> bytes of the buffer as a \<open>_T\<close>; the
  argument \<open>n\<close> is \<open>sizeof(_T)\<close> and the result is the object representation read.\<close>

definition get_payload :: "Message \<Rightarrow> nat \<Rightarrow> byte list" where
  "get_payload m n = take n (payload m)"

definition get_payload_size :: "Message \<Rightarrow> nat" where
  "get_payload_size m = payload_size m"

definition set_metadata :: "Message \<Rightarrow> MessageMetadata \<Rightarrow> Message" where
  "set_metadata m md = m\<lparr>metadata := md\<rparr>"

text \<open>\<open>std::swap(a, b)\<close> on two objects, and the friend \<open>swap(Message& lhs, Message& rhs)\<close>. Its
  first statement is \<open>swap(lhs.metadata, lhs.metadata)\<close>: both arguments are the member of
  \<open>lhs\<close>, so the two values handed to \<open>std::swap\<close> are the same and the second one written back
  to that member is what the member holds afterwards.\<close>

definition std_swap :: "'a \<Rightarrow> 'a \<Rightarrow> 'a \<times> 'a" where
  "std_swap a b = (b, a)"

definition swap :: "Message \<Rightarrow> Message \<Rightarrow> Message \<times> Message" where
  "swap lhs rhs =
     (let (md1, md2) = std_swap (metadata lhs) (metadata lhs);
          lhs = lhs\<lparr>metadata := md1\<rparr>;
          lhs = lhs\<lparr>metadata := md2\<rparr>;
          (p1, p2) = std_swap (payload lhs) (payload rhs);
          lhs = lhs\<lparr>payload := p1\<rparr>;
          rhs = rhs\<lparr>payload := p2\<rparr>;
          (s1, s2) = std_swap (payload_size lhs) (payload_size rhs);
          lhs = lhs\<lparr>payload_size := s1\<rparr>;
          rhs = rhs\<lparr>payload_size := s2\<rparr>
      in (lhs, rhs))"

text \<open>The messages that the public interface can produce, and the invariant of the record.\<close>

inductive reachable :: "Message \<Rightarrow> bool" where
  r_default: "reachable Message_default"
| r_ctor: "sizeof d \<le> MAX_MESSAGE_SIZE \<Longrightarrow> Message_ctor md cat d = Inr m \<Longrightarrow> reachable m"
| r_set_payload:
    "reachable m \<Longrightarrow> sizeof d \<le> MAX_MESSAGE_SIZE \<Longrightarrow> reachable (snd (set_payload m cat d))"
| r_set_metadata: "reachable m \<Longrightarrow> reachable (set_metadata m md)"
| r_swap_lhs: "reachable a \<Longrightarrow> reachable b \<Longrightarrow> reachable (fst (swap a b))"
| r_swap_rhs: "reachable a \<Longrightarrow> reachable b \<Longrightarrow> reachable (snd (swap a b))"

section \<open>Properties of the ring buffer\<close>

subsection \<open>Indices, element count and stored values\<close>

lemma count_cases:
  assumes "queue_inv q"
  shows "count q = (if read_index q \<le> write_index q then write_index q - read_index q
       else write_index q + capacity q - read_index q)"
proof (cases "read_index q \<le> write_index q")
  case True
  have eq: "write_index q + capacity q - read_index q = (write_index q - read_index q) + capacity q"
    using True by arith
  have lt: "write_index q - read_index q < capacity q"
    using assms unfolding queue_inv_def by arith
  have "count q = write_index q - read_index q"
    unfolding count_def eq using lt by simp
  then show ?thesis using True by simp
next
  case False
  then have "write_index q + capacity q - read_index q < capacity q"
    using assms unfolding queue_inv_def by arith
  then show ?thesis using False by (simp add: count_def)
qed

lemma count_lt: "queue_inv q \<Longrightarrow> count q < capacity q"
  by (simp add: count_def queue_inv_def)

lemma queue_inv_new: "2 < length slots \<Longrightarrow> queue_inv (SpscQueue_new slots)"
  by (auto simp add: queue_inv_def SpscQueue_new_def capacity_def)

lemma contents_new: "2 < length slots \<Longrightarrow> contents (SpscQueue_new slots) = []"
  by (simp add: contents_def count_def SpscQueue_new_def capacity_def)

lemma push_mod:
  "write_index q < capacity q \<Longrightarrow>
   push q v = (if (write_index q + 1) mod capacity q = read_index q then (False, q)
     else (True, q\<lparr>elements := (elements q)[write_index q := v],
                    write_index := (write_index q + 1) mod capacity q\<rparr>))"
  by (auto simp: push_def Let_def mod_Suc)

lemma pop_mod:
  "read_index q < capacity q \<Longrightarrow>
   pop q out = (if read_index q = write_index q then (False, q, out)
     else (True, q\<lparr>read_index := (read_index q + 1) mod capacity q\<rparr>,
           (case out of None \<Rightarrow> None | Some _ \<Rightarrow> Some (elements q ! read_index q))))"
  by (auto simp: pop_def Let_def mod_Suc)

lemma full_iff:
  "queue_inv q \<Longrightarrow>
   (write_index q + 1) mod capacity q = read_index q \<longleftrightarrow> count q = capacity q - 1"
  by (auto simp: count_cases queue_inv_def mod_Suc split: if_splits)

lemma empty_iff: "queue_inv q \<Longrightarrow> read_index q = write_index q \<longleftrightarrow> count q = 0"
  by (auto simp: count_cases queue_inv_def split: if_splits)

lemma push_inv: "queue_inv q \<Longrightarrow> queue_inv (snd (push q v))"
  by (auto simp: push_def Let_def queue_inv_def capacity_def)

lemma pop_inv: "queue_inv q \<Longrightarrow> queue_inv (fst (snd (pop q out)))"
  by (auto simp: pop_def Let_def queue_inv_def capacity_def)

lemma push_count: "queue_inv q \<Longrightarrow> fst (push q v) \<Longrightarrow> count (snd (push q v)) = Suc (count q)"
  apply (frule push_inv[of q v])
  apply (simp add: count_cases)
  apply (auto simp: push_def Let_def queue_inv_def capacity_def split: if_splits)
  done

lemma pop_count: "queue_inv q \<Longrightarrow> fst (pop q out) \<Longrightarrow> Suc (count (fst (snd (pop q out)))) = count q"
  apply (frule pop_inv[of q out])
  apply (simp add: count_cases)
  apply (auto simp: pop_def Let_def queue_inv_def capacity_def split: if_splits)
  done

lemma length_contents: "length (contents q) = count q"
  by (simp add: contents_def)

lemma idx_count: 
  assumes "queue_inv q" shows "(read_index q + count q) mod capacity q = write_index q"
proof (cases "read_index q \<le> write_index q")
  case True
  then show ?thesis using assms by (simp add: count_cases queue_inv_def)
next
  case False
  then have "read_index q + count q = write_index q + capacity q"
    using assms by (simp add: count_cases queue_inv_def)
  then show ?thesis using assms by (simp add: queue_inv_def)
qed

lemma idx_neq:
  assumes "queue_inv q" "i < count q"
  shows "(read_index q + i) mod capacity q \<noteq> write_index q"
proof (cases "read_index q + i < capacity q")
  case True
  then show ?thesis using assms by (auto simp: count_cases queue_inv_def split: if_splits)
next
  case False
  then have "(read_index q + i) mod capacity q = read_index q + i - capacity q"
    using assms by (auto simp: count_cases queue_inv_def le_mod_geq split: if_splits)
  then show ?thesis using assms False by (auto simp: count_cases queue_inv_def split: if_splits)
qed

lemma push_contents:
  assumes "queue_inv q" "fst (push q v)"
  shows "contents (snd (push q v)) = contents q @ [v]"
proof -
  let ?q' = "snd (push q v)"
  have w: "write_index q < capacity q" using assms by (simp add: queue_inv_def)
  have c: "count ?q' = Suc (count q)" using assms by (rule push_count)
  have e: "elements ?q' = (elements q)[write_index q := v]" "read_index ?q' = read_index q"
          "capacity ?q' = capacity q"
    using assms(2) by (auto simp: push_def Let_def capacity_def split: if_splits)
  have old: "map (\<lambda>i. (elements q)[write_index q := v] ! ((read_index q + i) mod capacity q)) [0..<count q]
      = contents q"
  proof -
    have "(elements q)[write_index q := v] ! ((read_index q + i) mod capacity q)
        = elements q ! ((read_index q + i) mod capacity q)" if "i < count q" for i
      using idx_neq[OF assms(1) that] by (metis nth_list_update_neq)
    then show ?thesis by (simp add: contents_def)
  qed
  have new: "(elements q)[write_index q := v] ! ((read_index q + count q) mod capacity q) = v"
    unfolding idx_count[OF assms(1)] using w by (simp add: capacity_def)
  show ?thesis
    unfolding contents_def[of ?q'] c e using old new by simp
qed

lemma pop_contents:
  assumes "queue_inv q" "fst (pop q out)"
  shows "contents q = elements q ! read_index q # contents (fst (snd (pop q out)))"
proof -
  let ?q' = "fst (snd (pop q out))"
  have r: "read_index q < capacity q" using assms by (simp add: queue_inv_def)
  have c: "count q = Suc (count ?q')" using assms by (simp add: pop_count)
  have e: "elements ?q' = elements q" "read_index ?q' = (read_index q + 1) mod capacity q"
          "capacity ?q' = capacity q"
    using assms(2) r by (auto simp: pop_mod capacity_def split: if_splits)
  have "contents q = map (\<lambda>i. elements q ! ((read_index q + i) mod capacity q)) [0..<Suc (count ?q')]"
    unfolding contents_def c ..
  also have "\<dots> = elements q ! read_index q #
       map (\<lambda>i. elements q ! ((read_index q + Suc i) mod capacity q)) [0..<count ?q']"
    using r by (simp add: upt_conv_Cons map_Suc_upt[symmetric] del: upt_Suc)
  also have "\<dots> = elements q ! read_index q # contents ?q'"
    unfolding contents_def[of ?q'] e by (simp add: mod_add_left_eq)
  finally show ?thesis .
qed


subsection \<open>Single calls\<close>

text \<open>
  Claim C2. In every state of the queue, \<open>push(v)\<close> returns false and leaves the queue as it
  was exactly when (write index + 1) mod N equals the read index; otherwise it stores \<open>v\<close> in
  the slot at the write index, sets the write index to (write index + 1) mod N and returns
  true.
\<close>

theorem push_full_or_store:
  assumes "queue_inv q"
  shows "push q v =
           (if (write_index q + 1) mod capacity q = read_index q then (False, q)
            else (True, q\<lparr>elements := (elements q)[write_index q := v],
                           write_index := (write_index q + 1) mod capacity q\<rparr>))
         \<and> (fst (push q v) \<longleftrightarrow> (write_index q + 1) mod capacity q \<noteq> read_index q)"
  using assms by (simp add: push_mod queue_inv_def)

theorem push_full_or_store_witness:
  "queue_inv \<lparr>elements = [7, 8, 9 :: nat], read_index = 1, write_index = 2\<rparr> \<and>
   push \<lparr>elements = [7, 8, 9 :: nat], read_index = 1, write_index = 2\<rparr> 4 =
     (True, \<lparr>elements = [7, 8, 4], read_index = 1, write_index = 0\<rparr>) \<and>
   queue_inv \<lparr>elements = [7, 8, 9 :: nat], read_index = 0, write_index = 2\<rparr> \<and>
   push \<lparr>elements = [7, 8, 9 :: nat], read_index = 0, write_index = 2\<rparr> 4 =
     (False, \<lparr>elements = [7, 8, 9], read_index = 0, write_index = 2\<rparr>)"
proof -
  have a: "queue_inv \<lparr>elements = [7, 8, 9 :: nat], read_index = 1, write_index = 2\<rparr>"
    and b: "queue_inv \<lparr>elements = [7, 8, 9 :: nat], read_index = 0, write_index = 2\<rparr>"
    by (simp_all add: queue_inv_def capacity_def)
  show ?thesis
    using a b push_full_or_store [OF a, of 4] push_full_or_store [OF b, of 4]
    by (simp add: capacity_def)
qed

text \<open>
  Claim C3. In every state of the queue, \<open>pop(out)\<close> returns false and leaves the queue and
  the storage behind \<open>out\<close> as they were exactly when the read index equals the write index;
  otherwise it returns true, copies the slot at the read index to \<open>out\<close> if \<open>out\<close> is not
  null (and copies nothing if it is), and sets the read index to (read index + 1) mod N. The
  slot array is the same after the call: the popped value stays in its slot.
\<close>

theorem pop_empty_or_advance:
  assumes "queue_inv q"
  shows "pop q out =
           (if read_index q = write_index q then (False, q, out)
            else (True, q\<lparr>read_index := (read_index q + 1) mod capacity q\<rparr>,
                  (case out of None \<Rightarrow> None | Some _ \<Rightarrow> Some (elements q ! read_index q))))
         \<and> (fst (pop q out) \<longleftrightarrow> read_index q \<noteq> write_index q)
         \<and> (fst (pop q out) \<longleftrightarrow> \<not> is_empty q)
         \<and> elements (fst (snd (pop q out))) = elements q"
  using assms by (simp add: pop_mod queue_inv_def is_empty_def)

theorem pop_empty_or_advance_witness:
  "queue_inv \<lparr>elements = [7, 8, 9 :: nat], read_index = 2, write_index = 1\<rparr> \<and>
   pop \<lparr>elements = [7, 8, 9 :: nat], read_index = 2, write_index = 1\<rparr> (Some 0) =
     (True, \<lparr>elements = [7, 8, 9], read_index = 0, write_index = 1\<rparr>, Some 9) \<and>
   pop \<lparr>elements = [7, 8, 9 :: nat], read_index = 2, write_index = 1\<rparr> None =
     (True, \<lparr>elements = [7, 8, 9], read_index = 0, write_index = 1\<rparr>, None) \<and>
   queue_inv \<lparr>elements = [7, 8, 9 :: nat], read_index = 1, write_index = 1\<rparr> \<and>
   pop \<lparr>elements = [7, 8, 9 :: nat], read_index = 1, write_index = 1\<rparr> (Some 0) =
     (False, \<lparr>elements = [7, 8, 9], read_index = 1, write_index = 1\<rparr>, Some 0)"
proof -
  have a: "queue_inv \<lparr>elements = [7, 8, 9 :: nat], read_index = 2, write_index = 1\<rparr>"
    and b: "queue_inv \<lparr>elements = [7, 8, 9 :: nat], read_index = 1, write_index = 1\<rparr>"
    by (simp_all add: queue_inv_def capacity_def)
  show ?thesis
    using a b pop_empty_or_advance [OF a, of "Some 0"] pop_empty_or_advance [OF a, of None]
      pop_empty_or_advance [OF b, of "Some 0"]
    by (simp add: capacity_def)
qed


lemma push_ok_iff: "queue_inv q \<Longrightarrow> fst (push q v) \<longleftrightarrow> count q < capacity q - 1"
  using full_iff[of q] count_lt[of q] by (auto simp: push_mod queue_inv_def)

lemma push_fail_same: "\<not> fst (push q v) \<Longrightarrow> snd (push q v) = q"
  by (auto simp: push_def Let_def)

lemma push_capacity: "capacity (snd (push q v)) = capacity q"
  by (auto simp: push_def Let_def capacity_def)

lemma pop_capacity: "capacity (fst (snd (pop q out))) = capacity q"
  by (auto simp: pop_def Let_def capacity_def)

lemma push_sim:
  assumes "queue_inv q"
  shows "fifo_push (capacity q - 1) (contents q) v = (fst (push q v), contents (snd (push q v)))"
proof (cases "fst (push q v)")
  case True
  then show ?thesis
    using assms push_ok_iff[OF assms, of v] by (simp add: fifo_push_def length_contents push_contents)
next
  case False
  then show ?thesis
    using assms push_ok_iff[OF assms, of v] by (simp add: fifo_push_def length_contents push_fail_same)
qed

lemma pop_sim:
  assumes "queue_inv q"
  shows "fifo_pop (contents q) out =
     (fst (pop q out), contents (fst (snd (pop q out))), snd (snd (pop q out)))"
proof (cases "fst (pop q out)")
  case True
  have r: "read_index q < capacity q" using assms by (simp add: queue_inv_def)
  have "snd (snd (pop q out)) = (case out of None \<Rightarrow> None | Some _ \<Rightarrow> Some (elements q ! read_index q))"
    using True r by (simp add: pop_mod split: if_splits)
  then show ?thesis
    using True pop_contents[OF assms True] by (simp add: fifo_pop_def)
next
  case False
  have r: "read_index q < capacity q" using assms by (simp add: queue_inv_def)
  from False r have e: "read_index q = write_index q" "pop q out = (False, q, out)"
    by (auto simp: pop_mod split: if_splits)
  have "contents q = []" using e(1) empty_iff[OF assms] length_contents[of q] by simp
  then show ?thesis using e by (simp add: fifo_pop_def)
qed

lemma step_sim:
  assumes "queue_inv q"
  shows "fifo_step (capacity q - 1) (contents q) c = (fst (step q c), contents (snd (step q c)))"
    and "queue_inv (snd (step q c))" and "capacity (snd (step q c)) = capacity q"
proof -
  show "fifo_step (capacity q - 1) (contents q) c = (fst (step q c), contents (snd (step q c)))"
    using push_sim[OF assms] pop_sim[OF assms]
    by (cases c) (simp_all add: split_beta)
  show "queue_inv (snd (step q c))"
    using push_inv[OF assms] pop_inv[OF assms] by (cases c) (simp_all add: split_beta)
  show "capacity (snd (step q c)) = capacity q"
    by (cases c) (simp_all add: split_beta push_capacity pop_capacity)
qed

lemma run_sim:
  "queue_inv q \<Longrightarrow>
   fifo_run (capacity q - 1) (contents q) cs = (fst (run q cs), contents (snd (run q cs)))"
proof (induction cs arbitrary: q)
  case Nil
  then show ?case by simp
next
  case (Cons c cs)
  let ?q' = "snd (step q c)"
  have "fifo_run (capacity ?q' - 1) (contents ?q') cs = (fst (run ?q' cs), contents (snd (run ?q' cs)))"
    using Cons.IH[OF step_sim(2)[OF Cons.prems]] .
  then show ?case
    using step_sim(1)[OF Cons.prems, of c] step_sim(3)[OF Cons.prems, of c]
    by (simp add: split_beta)
qed

lemma fifo_order:
  "fifo_run cap xs cs = (rs, ys) \<Longrightarrow>
     list_all2 agrees (delivered rs) (take (length (delivered rs)) (xs @ accepted cs rs)) \<and>
     drop (length (delivered rs)) (xs @ accepted cs rs) = ys"
proof (induction cs arbitrary: xs rs ys)
  case Nil
  then show ?case by simp
next
  case (Cons c cs)
  obtain r xs' where st: "fifo_step cap xs c = (r, xs')" by (cases "fifo_step cap xs c")
  obtain rs' ys' where rn': "fifo_run cap xs' cs = (rs', ys')" by (cases "fifo_run cap xs' cs")
  have rs: "rs = r # rs'" and "ys' = ys" using Cons.prems st rn' by simp_all
  then have rn: "fifo_run cap xs' cs = (rs', ys)" using rn' by simp
  note IH = Cons.IH[OF rn]
  show ?case
  proof (cases "\<exists>out. r = PopResult True out")
    case False
    then have d: "delivered rs = delivered rs'"
      using rs by (cases r) (auto split: bool.splits)
    have "xs' @ accepted cs rs' = xs @ accepted (c # cs) rs"
      using st rs False
      by (cases c) (auto simp: fifo_push_def fifo_pop_def split: if_splits list.splits)
    then show ?thesis using IH d by simp
  next
    case True
    then obtain out' where r: "r = PopResult True out'" by blast
    then obtain out where c: "c = Pop out" using st by (cases c) (auto simp: split_beta)
    obtain x where xs: "xs = x # xs'" and ag: "agrees out' x"
      using st r c by (auto simp: fifo_pop_def agrees_def split: list.splits option.splits)
    have "delivered rs = out' # delivered rs'" "accepted (c # cs) rs = accepted cs rs'"
      using rs r c by simp_all
    then show ?thesis using IH xs ag by simp
  qed
qed


subsection \<open>Sequences of calls against the list queue\<close>

text \<open>
  Claim C1. For every sequence of \<open>push\<close> and \<open>pop\<close> calls executed one after the other on a
  queue that starts empty, the ring buffer behaves as the bounded FIFO list queue of capacity
  N - 1: every call returns what the list queue returns and the stored values are the list.
  Hence the values delivered by the successful pops are, position by position, the values
  accepted by the successful pushes (a pop called with a null pointer removes its value
  without delivering it), and the accepted values not yet popped are exactly the stored ones,
  in order.
\<close>

theorem spsc_fifo_refinement:
  assumes "2 < length slots"
  shows "fst (run (SpscQueue_new slots) cs) = fst (fifo_run (length slots - 1) [] cs)
       \<and> contents (snd (run (SpscQueue_new slots) cs)) = snd (fifo_run (length slots - 1) [] cs)
       \<and> list_all2 agrees (delivered (fst (run (SpscQueue_new slots) cs)))
            (take (length (delivered (fst (run (SpscQueue_new slots) cs))))
               (accepted cs (fst (run (SpscQueue_new slots) cs))))
       \<and> drop (length (delivered (fst (run (SpscQueue_new slots) cs))))
            (accepted cs (fst (run (SpscQueue_new slots) cs)))
          = contents (snd (run (SpscQueue_new slots) cs))"
proof -
  let ?q = "SpscQueue_new slots"
  have inv: "queue_inv ?q" using assms by (rule queue_inv_new)
  have cap: "capacity ?q = length slots" by (simp add: capacity_def SpscQueue_new_def)
  have sim: "fifo_run (length slots - 1) [] cs = (fst (run ?q cs), contents (snd (run ?q cs)))"
    using run_sim[OF inv, of cs] contents_new[OF assms] cap by simp
  from fifo_order[OF sim] sim show ?thesis by simp
qed

theorem spsc_fifo_refinement_witness:
  "2 < length [0, 0, 0, 0 :: nat] \<and>
   fst (run (SpscQueue_new [0, 0, 0, 0 :: nat])
          [Push 1, Push 2, Push 3, Push 4, Pop (Some 0), Push 4,
           Pop (Some 0), Pop (Some 0), Pop (Some 0), Pop (Some 0)]) =
     [PushResult True, PushResult True, PushResult True, PushResult False,
      PopResult True (Some 1), PushResult True,
      PopResult True (Some 2), PopResult True (Some 3), PopResult True (Some 4),
      PopResult False (Some 0)]"
proof -
  have h: "2 < length [0, 0, 0, 0 :: nat]" by simp
  show ?thesis
    using h spsc_fifo_refinement [OF h, of "[Push 1, Push 2, Push 3, Push 4, Pop (Some 0), Push 4,
           Pop (Some 0), Pop (Some 0), Pop (Some 0), Pop (Some 0)]"]
    by (simp add: fifo_push_def fifo_pop_def)
qed

lemma push_all_results:
  "queue_inv q \<Longrightarrow>
   fst (push_all q vs) = map (\<lambda>i. i < capacity q - 1 - count q) [0..<length vs]"
proof (induction vs arbitrary: q)
  case Nil
  then show ?case by simp
next
  case (Cons v vs)
  let ?q' = "snd (push q v)"
  have IH: "fst (push_all ?q' vs) = map (\<lambda>i. i < capacity ?q' - 1 - count ?q') [0..<length vs]"
    using Cons.IH[OF push_inv[OF Cons.prems]] .
  have hd: "fst (push q v) \<longleftrightarrow> 0 < capacity q - 1 - count q"
    using push_ok_iff[OF Cons.prems, of v] by auto
  have tl: "(i < capacity ?q' - 1 - count ?q') \<longleftrightarrow> (Suc i < capacity q - 1 - count q)" for i
  proof (cases "fst (push q v)")
    case True
    then show ?thesis using push_count[OF Cons.prems True] by (auto simp: push_capacity)
  next
    case False
    then show ?thesis using hd by (simp add: push_fail_same)
  qed
  have "fst (push_all q (v # vs)) = fst (push q v) # fst (push_all ?q' vs)"
    by (simp add: split_beta)
  also have "\<dots> = map (\<lambda>i. i < capacity q - 1 - count q) [0..<length (v # vs)]"
    unfolding IH using hd tl
    by (simp add: upt_conv_Cons map_Suc_upt[symmetric] del: upt_Suc)
  finally show ?case .
qed

text \<open>
  Claim C4. In any state of a queue of capacity N, a run of consecutive \<open>push\<close> calls has at
  most N - 1 calls that return true, whatever the values; on a freshly constructed queue the
  first N - 1 consecutive pushes return true and every later one (the N-th in particular)
  returns false.
\<close>

theorem consecutive_pushes:
  assumes "queue_inv q" and "2 < length slots"
  shows "length (filter (\<lambda>ok. ok) (fst (push_all q vs))) \<le> capacity q - 1
       \<and> fst (push_all (SpscQueue_new slots) vs) = map (\<lambda>i. i < length slots - 1) [0..<length vs]"
proof -
  have "length (filter (\<lambda>ok. ok) (map (\<lambda>i. i < k) [0..<n])) \<le> k" for k n :: nat
    by (induction n) auto
  then have a: "length (filter (\<lambda>ok. ok) (fst (push_all q vs))) \<le> capacity q - 1 - count q"
    unfolding push_all_results[OF assms(1)] .
  have "count (SpscQueue_new slots) = 0" "capacity (SpscQueue_new slots) = length slots"
    using assms(2) by (simp_all add: count_def capacity_def SpscQueue_new_def)
  then have b: "fst (push_all (SpscQueue_new slots) vs) = map (\<lambda>i. i < length slots - 1) [0..<length vs]"
    using push_all_results[OF queue_inv_new[OF assms(2)], of vs] by simp
  from a b show ?thesis by simp
qed

theorem consecutive_pushes_witness:
  "queue_inv \<lparr>elements = [7, 8, 9 :: nat], read_index = 2, write_index = 0\<rparr> \<and>
   2 < length [0, 0, 0 :: nat] \<and>
   length (filter (\<lambda>ok. ok)
     (fst (push_all \<lparr>elements = [7, 8, 9 :: nat], read_index = 2, write_index = 0\<rparr> [4, 5, 6])))
     \<le> 2 \<and>
   fst (push_all (SpscQueue_new [0, 0, 0 :: nat]) [4, 5, 6]) = [True, True, False]"
proof -
  have a: "queue_inv \<lparr>elements = [7, 8, 9 :: nat], read_index = 2, write_index = 0\<rparr>"
    by (simp add: queue_inv_def capacity_def)
  have b: "2 < length [0, 0, 0 :: nat]" by simp
  have c: "[0..<3] = [0, 1, 2]" by (simp add: upt_rec)
  show ?thesis
    using a b consecutive_pushes [OF a b, of "[4, 5, 6]"] by (simp add: capacity_def c)
qed

section \<open>Properties of the message envelope\<close>

lemma swap_eq:
  "swap lhs rhs = (lhs\<lparr>payload := payload rhs, payload_size := payload_size rhs\<rparr>,
                   rhs\<lparr>payload := payload lhs, payload_size := payload_size lhs\<rparr>)"
  by (simp add: swap_def std_swap_def)

text \<open>The byte-level overload returns false, changing nothing, exactly when the pointer is
  null or the size exceeds \<open>MAX_MESSAGE_SIZE\<close>; otherwise it copies and records the size.\<close>

lemma set_payload_bytes_eq:
  "set_payload_bytes m data sz =
     (if data = None \<or> sz > MAX_MESSAGE_SIZE then (False, m)
      else (True, m\<lparr>payload := memcpy (payload m) (the data) sz, payload_size := sz\<rparr>))"
  by (simp add: set_payload_bytes_def split: option.splits)

lemma set_payload_eq:
  "sizeof d \<le> MAX_MESSAGE_SIZE \<Longrightarrow> address_of d = Some (object_repr d) \<Longrightarrow>
   set_payload m cat d =
     (if is_pointer_v cat d \<and> is_nullptr d then (False, m)
      else (True, m\<lparr>payload := object_repr d @ drop (sizeof d) (payload m),
                     payload_size := sizeof d\<rparr>))"
  by (simp add: set_payload_def set_payload_bytes_def memcpy_def sizeof_def)

lemma Message_ctor_eq:
  "sizeof d \<le> MAX_MESSAGE_SIZE \<Longrightarrow> address_of d = Some (object_repr d) \<Longrightarrow>
   Message_ctor md cat d =
     Inr \<lparr>metadata = md,
          payload = object_repr d @ replicate (MAX_MESSAGE_SIZE - sizeof d) 0,
          payload_size = sizeof d\<rparr>"
  by (simp add: Message_ctor_def set_payload_eq)

lemma set_payload_size:
  "payload_size m \<le> MAX_MESSAGE_SIZE \<Longrightarrow>
   payload_size (snd (set_payload m cat d)) \<le> MAX_MESSAGE_SIZE"
  by (simp add: set_payload_def set_payload_bytes_def split: option.splits)

lemma Message_ctor_size:
  "Message_ctor md cat d = Inr m \<Longrightarrow> payload_size m \<le> MAX_MESSAGE_SIZE"
  using set_payload_size
    [of "\<lparr>metadata = md, payload = replicate MAX_MESSAGE_SIZE 0, payload_size = 0\<rparr>" Lvalue d]
  by (auto simp: Message_ctor_def Let_def split_beta split: if_splits)

text \<open>
  Claim C5 says that after \<open>swap(A, B)\<close> each envelope holds the other's tag, payload bytes
  and occupied size. The code exchanges the payload bytes and the occupied size only: with
  \<open>A\<close> tagged \<open>VOLUME\<close> and \<open>B\<close> tagged \<open>PAUSE\<close>, \<open>A\<close> is still tagged \<open>VOLUME\<close> and \<open>B\<close> still
  \<open>PAUSE\<close> after the call.
\<close>

theorem swap_leaves_tags:
  "get_type (get_metadata (fst (swap (set_metadata Message_default (MessageMetadata_of VOLUME))
                                     (set_metadata Message_default (MessageMetadata_of PAUSE)))))
     = VOLUME
   \<and> get_type (get_metadata (snd (swap (set_metadata Message_default (MessageMetadata_of VOLUME))
                                     (set_metadata Message_default (MessageMetadata_of PAUSE)))))
     = PAUSE"
  by (simp add: swap_eq get_type_def get_metadata_def set_metadata_def MessageMetadata_of_def)

text \<open>
  Claim C6 says that construction from a null pointer throws and that \<open>set_payload\<close> of a
  null pointer returns false without a change. The constructor called with the rvalue null
  pointer \<open>static_cast<int*>(nullptr)\<close> (eight zero bytes) throws nothing: it returns the
  envelope holding the pointer's eight bytes, occupied size 8. \<open>set_payload\<close> called with an
  lvalue holding the same null pointer returns true and stores the eight bytes as well.
\<close>

theorem ctor_null_pointer_no_throw:
  "Message_ctor (MessageMetadata_of VOLUME) Rvalue (Pointer True [0, 0, 0, 0, 0, 0, 0, 0]) =
     Inr \<lparr>metadata = MessageMetadata_of VOLUME,
          payload = [0, 0, 0, 0, 0, 0, 0, 0] @ replicate 504 0,
          payload_size = 8\<rparr>
   \<and> set_payload Message_default Lvalue (Pointer True [0, 0, 0, 0, 0, 0, 0, 0]) =
     (True, Message_default\<lparr>payload := [0, 0, 0, 0, 0, 0, 0, 0] @ replicate 504 0,
                            payload_size := 8\<rparr>)"
  by (simp add: Message_ctor_eq set_payload_eq sizeof_def MAX_MESSAGE_SIZE_def
        Message_default_def)

text \<open>
  Claim C7, amended. For every value \<open>P\<close> of size at most 512 bytes that is not a null
  pointer and for which \<open>&P\<close> is the address of \<open>P\<close> itself, constructing a Message with a tag
  (\<open>VOLUME\<close> or any other) and payload \<open>P\<close> succeeds, \<open>get_payload<T>()\<close> with \<open>T\<close> the type
  of \<open>P\<close> then yields the bytes of \<open>P\<close> and \<open>get_payload_size()\<close> yields \<open>sizeof(P)\<close>; the
  same holds after \<open>set_payload(P)\<close> on an existing Message, which returns true.
\<close>

theorem payload_round_trip:
  assumes "sizeof d \<le> MAX_MESSAGE_SIZE"
    and "\<not> is_nullptr d"
    and "address_of d = Some (object_repr d)"
  shows "(\<exists>m. Message_ctor md cat d = Inr m
              \<and> get_payload m (sizeof d) = object_repr d
              \<and> get_payload_size m = sizeof d
              \<and> get_metadata m = md)
       \<and> fst (set_payload m0 cat d)
       \<and> get_payload (snd (set_payload m0 cat d)) (sizeof d) = object_repr d
       \<and> get_payload_size (snd (set_payload m0 cat d)) = sizeof d"
  using assms
  by (simp add: Message_ctor_eq set_payload_eq get_payload_def get_payload_size_def
        get_metadata_def sizeof_def)

theorem payload_round_trip_witness:
  "sizeof (Object [1, 2, 3, 4]) \<le> MAX_MESSAGE_SIZE
   \<and> \<not> is_nullptr (Object [1, 2, 3, 4])
   \<and> address_of (Object [1, 2, 3, 4]) = Some (object_repr (Object [1, 2, 3, 4]))
   \<and> (\<exists>m. Message_ctor (MessageMetadata_of VOLUME) Rvalue (Object [1, 2, 3, 4]) = Inr m
          \<and> get_payload m 4 = [1, 2, 3, 4] \<and> get_payload_size m = 4
          \<and> get_type (get_metadata m) = VOLUME)
   \<and> fst (set_payload Message_default Rvalue (Object [1, 2, 3, 4]))
   \<and> get_payload (snd (set_payload Message_default Rvalue (Object [1, 2, 3, 4]))) 4 = [1, 2, 3, 4]
   \<and> get_payload_size (snd (set_payload Message_default Rvalue (Object [1, 2, 3, 4]))) = 4"
proof -
  have h: "sizeof (Object [1, 2, 3, 4]) \<le> MAX_MESSAGE_SIZE"
    by (simp add: sizeof_def MAX_MESSAGE_SIZE_def)
  have k: "\<not> is_nullptr (Object [1, 2, 3, 4])"
    by simp
  have a: "address_of (Object [1, 2, 3, 4]) = Some (object_repr (Object [1, 2, 3, 4]))"
    by simp
  have n: "sizeof (Object [1, 2, 3, 4]) = 4"
    by (simp add: sizeof_def)
  show ?thesis
    using h
      payload_round_trip [OF h k a, of "MessageMetadata_of VOLUME" Rvalue Message_default,
                          unfolded n]
    by (auto simp: get_type_def MessageMetadata_of_def)
qed

text \<open>
  Claim C7 as stated fails for \<open>set_payload\<close> at two values. On a Message holding the four
  bytes 1, 2, 3, 4, \<open>set_payload\<close> of an rvalue null pointer (eight zero bytes) is refused by
  the null check and leaves the payload and the occupied size 4 in place, so neither the
  bytes read back nor the size are those of the pointer. On a default-constructed Message,
  \<open>set_payload\<close> of a four-byte object whose \<open>operator&\<close> returns a null pointer is refused by
  the byte-level overload: the bytes read back are zeros and the size is 0.
\<close>

theorem set_payload_null_counterexample:
  "\<not> (get_payload (snd (set_payload (snd (set_payload Message_default Rvalue (Object [1, 2, 3, 4])))
                          Rvalue (Pointer True [0, 0, 0, 0, 0, 0, 0, 0]))) 8
        = [0, 0, 0, 0, 0, 0, 0, 0]
      \<and> get_payload_size (snd (set_payload (snd (set_payload Message_default Rvalue (Object [1, 2, 3, 4])))
                          Rvalue (Pointer True [0, 0, 0, 0, 0, 0, 0, 0])))
        = sizeof (Pointer True [0, 0, 0, 0, 0, 0, 0, 0]))
   \<and> \<not> (get_payload (snd (set_payload Message_default Rvalue (Overloaded [1, 2, 3, 4] None))) 4
        = [1, 2, 3, 4]
      \<and> get_payload_size (snd (set_payload Message_default Rvalue (Overloaded [1, 2, 3, 4] None)))
        = sizeof (Overloaded [1, 2, 3, 4] None))"
  by (simp add: set_payload_def set_payload_bytes_def memcpy_def sizeof_def
        MAX_MESSAGE_SIZE_def get_payload_size_def Message_default_def)

lemma reachable_size: "reachable m \<Longrightarrow> payload_size m \<le> MAX_MESSAGE_SIZE"
proof (induction rule: reachable.induct)
  case r_default
  then show ?case by (simp add: Message_default_def)
next
  case (r_ctor d md cat m)
  then show ?case by (simp add: Message_ctor_size)
next
  case (r_set_payload m d cat)
  then show ?case by (simp add: set_payload_size)
next
  case (r_set_metadata m md)
  then show ?case by (simp add: set_metadata_def)
next
  case (r_swap_lhs a b)
  then show ?case by (simp add: swap_eq)
next
  case (r_swap_rhs a b)
  then show ?case by (simp add: swap_eq)
qed

text \<open>
  Claim C8. Every Message produced by the default constructor, the tagged constructor or any
  sequence of \<open>set_payload\<close>, \<open>set_metadata\<close> and \<open>swap\<close> calls has an occupied payload size
  of at most \<open>MAX_MESSAGE_SIZE\<close> = 512.
\<close>

theorem payload_size_bounded:
  "reachable m \<Longrightarrow> get_payload_size m \<le> MAX_MESSAGE_SIZE"
  by (simp add: reachable_size get_payload_size_def)

theorem payload_size_bounded_witness:
  "reachable (snd (swap Message_default (snd (set_payload Message_default Rvalue (Object [1, 2, 3, 4])))))
   \<and> get_payload_size (snd (swap Message_default (snd (set_payload Message_default Rvalue (Object [1, 2, 3, 4])))))
       \<le> MAX_MESSAGE_SIZE
   \<and> reachable (fst (swap Message_default (snd (set_payload Message_default Rvalue (Object [1, 2, 3, 4])))))
   \<and> get_payload_size (fst (swap Message_default (snd (set_payload Message_default Rvalue (Object [1, 2, 3, 4])))))
       \<le> MAX_MESSAGE_SIZE"
proof -
  have s: "sizeof (Object [1, 2, 3, 4]) \<le> MAX_MESSAGE_SIZE"
    by (simp add: sizeof_def MAX_MESSAGE_SIZE_def)
  have r: "reachable (snd (swap Message_default
             (snd (set_payload Message_default Rvalue (Object [1, 2, 3, 4])))))"
    by (intro r_swap_rhs r_set_payload r_default s)
  have l: "reachable (fst (swap Message_default
             (snd (set_payload Message_default Rvalue (Object [1, 2, 3, 4])))))"
    by (intro r_swap_lhs r_set_payload r_default s)
  show ?thesis using r l payload_size_bounded [OF r] payload_size_bounded [OF l] by simp
qed

text \<open>
  Claim C10. \<open>set_metadata(t)\<close> changes the tag only: payload bytes and occupied size are as
  before the call. Every \<open>set_payload\<close> call, of either overload and whatever it returns,
  leaves the tag as it was.
\<close>

theorem tag_and_payload_frames:
  "payload (set_metadata m md) = payload m
   \<and> payload_size (set_metadata m md) = payload_size m
   \<and> get_metadata (set_metadata m md) = md
   \<and> metadata (snd (set_payload m cat d)) = metadata m
   \<and> metadata (snd (set_payload_bytes m data sz)) = metadata m"
  by (simp add: set_metadata_def get_metadata_def set_payload_def set_payload_bytes_def
        split: option.splits)


end
